theory Spec2Isabelle
  imports Main "HOL-Library.Word"
begin

section \<open>Basic types\<close>

text \<open>
  A \<open>char\<close> of a \<open>std::vector<char>\<close> is a byte, \<open>size_t\<close> is a 64-bit unsigned
  word whose arithmetic wraps around, a \<open>steady_clock::time_point\<close> is its tick count in
  nanoseconds.
\<close>

type_synonym byte = "8 word"
type_synonym size_t = "64 word"
type_synonym time_point = int

text \<open>
  The identity of a \<open>std::shared_ptr<PublisherSession>\<close>: sessions are shared objects,
  referred to by address from the session list, the pending accept and their own callbacks.
\<close>

type_synonym sid = nat

text \<open>
  Undefined behaviour of \<open>memcpy\<close> and of writes through a pointer into the buffer is a
  value of the model: reading past the memory a payload pointer refers to, or writing past
  the end of the vector.
\<close>

datatype fault = ReadOutOfBounds | WriteOutOfBounds

text \<open>
  One entry of the argument of \<open>Publisher_Impl::send\<close>, a
  \<open>std::pair<const char* const, const size_t>\<close>: the pointer is \<open>None\<close> for
  \<open>nullptr\<close> and otherwise \<open>Some m\<close>, with \<open>m\<close> the bytes readable at the address;
  the second component is the declared length.
\<close>

type_synonym payload = "byte list option \<times> size_t"

section \<open>Wire header\<close>

text \<open>
  Modelled from the spec: \<open>tcp_header.h\<close> (the declaration of \<open>TcpHeader\<close> and
  \<open>MessageContentType\<close>) is not among the sources. The spec gives the header as 16 bytes
  with \<open>header_size\<close> (u16) at offset 0, \<open>type\<close> (u8) at offset 2, \<open>reserved\<close> (u8) at
  offset 3, \<open>data_size\<close> (u64) at offset 4 and padding at offsets 12 to 15, and
  \<open>RegularPayload = 0\<close>, \<open>ProtocolHandshake = 1\<close>.
\<close>

definition sizeof_TcpHeader :: size_t where
  "sizeof_TcpHeader = 16"

definition offset_header_size :: nat where
  "offset_header_size = 0"

definition offset_type :: nat where
  "offset_type = 2"

definition offset_reserved :: nat where
  "offset_reserved = 3"

definition offset_data_size :: nat where
  "offset_data_size = 4"

definition RegularPayload :: byte where
  "RegularPayload = 0"

definition ProtocolHandshake :: byte where
  "ProtocolHandshake = 1"

text \<open>
  \<open>htole16\<close> and \<open>htole64\<close> followed by the store of the field: the bytes that end up in
  memory are the little-endian encoding of the value, whatever the host's byte order.
\<close>

definition le_bytes :: "nat \<Rightarrow> 'a::len word \<Rightarrow> byte list" where
  "le_bytes n w = map (\<lambda>i. ucast (drop_bit (8 * i) w)) [0..<n]"

definition htole16 :: "16 word \<Rightarrow> byte list" where
  "htole16 w = le_bytes 2 w"

definition htole64 :: "64 word \<Rightarrow> byte list" where
  "htole64 w = le_bytes 8 w"

section \<open>Filling the buffer (\<open>Publisher_Impl::send\<close>, lines 282 to 324)\<close>

text \<open>
  \<open>std::vector<char>::resize\<close>: a longer vector is cut, a shorter one is extended with
  value-initialised (zero) chars. The capacity (\<open>reserve\<close>) does not show in the contents
  and is not modelled.
\<close>

definition resize :: "byte list \<Rightarrow> nat \<Rightarrow> byte list" where
  "resize v n = take n v @ replicate (n - length v) 0"

text \<open>A store of the bytes \<open>bs\<close> at position \<open>pos\<close> of the vector.\<close>

definition write_bytes :: "byte list \<Rightarrow> nat \<Rightarrow> byte list \<Rightarrow> fault + byte list" where
  "write_bytes buf pos bs =
     (if length buf < pos + length bs then Inl WriteOutOfBounds
      else Inr (take pos buf @ bs @ drop (pos + length bs) buf))"

text \<open>\<open>memcpy(&buf[pos], src, n)\<close>.\<close>

definition memcpy :: "byte list \<Rightarrow> nat \<Rightarrow> byte list \<Rightarrow> nat \<Rightarrow> fault + byte list" where
  "memcpy buf pos src n =
     (if length src < n then Inl ReadOutOfBounds
      else write_bytes buf pos (take n src))"

text \<open>The first loop: \<open>entire_payload_size += payload.second\<close>, in \<open>size_t\<close>.\<close>

definition entire_payload_size :: "payload list \<Rightarrow> size_t" where
  "entire_payload_size payloads = foldl (\<lambda>s p. s + snd p) 0 payloads"

text \<open>
  The four stores through \<open>header\<close>, the \<open>TcpHeader*\<close> at the start of the buffer. The
  padding at offsets 12 to 15 is not written.
\<close>

definition fill_header :: "byte list \<Rightarrow> size_t \<Rightarrow> fault + byte list" where
  "fill_header buf data_size =
     (case write_bytes buf offset_header_size (htole16 (ucast sizeof_TcpHeader)) of
        Inl e \<Rightarrow> Inl e
      | Inr b1 \<Rightarrow>
     (case write_bytes b1 offset_type [RegularPayload] of
        Inl e \<Rightarrow> Inl e
      | Inr b2 \<Rightarrow>
     (case write_bytes b2 offset_reserved [0] of
        Inl e \<Rightarrow> Inl e
      | Inr b3 \<Rightarrow> write_bytes b3 offset_data_size (htole64 data_size))))"

text \<open>
  The copy loop: an entry is copied, and the position advanced, only when its pointer is
  not null and its length is positive.
\<close>

fun copy_payloads :: "payload list \<Rightarrow> size_t \<Rightarrow> byte list \<Rightarrow> fault + byte list" where
  "copy_payloads [] current_position buf = Inr buf"
| "copy_payloads ((None, n) # ps) current_position buf =
     copy_payloads ps current_position buf"
| "copy_payloads ((Some m, n) # ps) current_position buf =
     (if n > 0
      then (case memcpy buf (unat current_position) m (unat n) of
              Inl e \<Rightarrow> Inl e
            | Inr buf' \<Rightarrow> copy_payloads ps (current_position + n) buf')
      else copy_payloads ps current_position buf)"

text \<open>
  The whole block, from the vector \<open>pooled\<close> that \<open>buffer_pool.allocate()\<close> returned
  (empty when new, the bytes of an earlier frame when recycled) to the buffer that is sent.
\<close>

definition fill_buffer :: "byte list \<Rightarrow> payload list \<Rightarrow> fault + byte list" where
  "fill_buffer pooled payloads =
     (let header_size = sizeof_TcpHeader;
          complete_size = header_size + entire_payload_size payloads;
          buf = resize pooled (unat complete_size)
      in case fill_header buf (entire_payload_size payloads) of
           Inl e \<Rightarrow> Inl e
         | Inr buf' \<Rightarrow> copy_payloads payloads header_size buf')"

section \<open>Publisher sessions\<close>

text \<open>
  Modelled from the spec: \<open>publisher_session.cpp\<close> is not among the sources; the publisher
  only calls \<open>start\<close>, \<open>cancel\<close>, \<open>sendDataBuffer\<close> and \<open>pushTransientBuffer\<close> on a
  session and installs its two callbacks. The spec gives a session a socket and a handshake
  state in \<open>{AwaitLocalSend, AwaitRemoteRecv, Established, Failed}\<close>: \<open>start\<close> queues the
  publisher's handshake and moves from \<open>AwaitLocalSend\<close> to \<open>AwaitRemoteRecv\<close>; reading
  the subscriber's handshake moves to \<open>Established\<close> and invokes \<open>on_ready\<close>; any I/O
  error or cancellation closes the socket, fires \<open>on_closed\<close> exactly once and is terminal.
  What a session does with a buffer it is handed is not decided here: the model records
  the calls, in order.
\<close>

datatype handshake_state = AwaitLocalSend | AwaitRemoteRecv | Established | Failed

datatype session_call = SendDataBuffer "byte list" | PushTransientBuffer "byte list"

record PublisherSession =
  socket_open :: bool
  handshake :: handshake_state
  handed :: "session_call list"
  closed_callbacks :: nat

text \<open>A session as \<open>std::make_shared<PublisherSession>\<close> leaves it, before the accept.\<close>

definition new_session :: PublisherSession where
  "new_session =
     \<lparr>socket_open = False, handshake = AwaitLocalSend, handed = [], closed_callbacks = 0\<rparr>"

section \<open>The publisher\<close>

text \<open>
  The logger is called with a level and a text; the levels are those the spec lists (the
  logger's header is not among the sources). The model keeps the level and the fixed part
  of the text of every unconditional call. Calls under
  \<open>TCP_PUBSUB_LOG_DEBUG_ENABLED\<close> and \<open>TCP_PUBSUB_LOG_DEBUG_VERBOSE_ENABLED\<close> are
  compiled conditionally and left out.
\<close>

datatype LogLevel = DebugVerbose | Debug | Info | Error

text \<open>
  The \<open>asio\<close> acceptor, as far as the publisher uses it: whether it is open, has the
  reuse-address option, is bound, is listening, and the session whose socket waits in
  \<open>async_accept\<close>. A call that reports no error has its effect, a call that reports an
  error has none.
\<close>

record acceptor_state =
  is_open :: bool
  reuse_address :: bool
  bound :: bool
  listening :: bool
  pending_accept :: "sid option"

text \<open>
  Modelled from the spec: \<open>PublisherTransientLocalSetting\<close> is declared in a header that
  is not among the sources; the spec gives it a count (\<open>usize\<close>, here \<open>size_t\<close>) and a
  lifespan in nanoseconds (\<open>i64\<close>), 0 for none. Time stamps and their differences are
  integers; they stay far from the range of 64 bits.
\<close>

record PublisherTransientLocalSetting =
  buffer_max_count :: size_t
  lifespan :: int

record TransientLocalElement =
  buffer :: "byte list"
  enqueue_tp :: time_point

text \<open>
  The members of \<open>Publisher_Impl\<close>, the session objects it shares (\<open>sessions\<close>, by
  identity; \<open>next_session\<close> is the identity the next \<open>make_shared\<close> yields), and the
  number of buffers taken from \<open>buffer_pool\<close>.
\<close>

record Publisher_Impl =
  is_running :: bool
  acceptor :: acceptor_state
  log :: "(LogLevel \<times> string) list"
  transient_local_setting :: PublisherTransientLocalSetting
  publisher_sessions :: "sid list"
  transient_local_buffers :: "TransientLocalElement list"
  sessions :: "sid \<Rightarrow> PublisherSession"
  next_session :: sid
  pool_allocations :: nat

text \<open>The constructor.\<close>

definition Publisher_Impl_new :: "PublisherTransientLocalSetting \<Rightarrow> Publisher_Impl" where
  "Publisher_Impl_new transient_local_setting' =
     \<lparr>is_running = False,
      acceptor = \<lparr>is_open = False, reuse_address = False, bound = False, listening = False,
                   pending_accept = None\<rparr>,
      log = [],
      transient_local_setting = transient_local_setting',
      publisher_sessions = [],
      transient_local_buffers = [],
      sessions = (\<lambda>_. new_session),
      next_session = 0,
      pool_allocations = 0\<rparr>"

definition log_call :: "LogLevel \<Rightarrow> string \<Rightarrow> Publisher_Impl \<Rightarrow> Publisher_Impl" where
  "log_call level msg st = st\<lparr>log := log st @ [(level, msg)]\<rparr>"

subsection \<open>Calls on a session\<close>

text \<open>
  Modelled from the spec: the methods of \<open>PublisherSession\<close> the publisher calls.
  \<open>sendDataBuffer\<close> and \<open>pushTransientBuffer\<close> are recorded on the session with the
  buffer they are given; \<open>start\<close> queues the publisher's handshake, which takes the
  session from \<open>AwaitLocalSend\<close> to \<open>AwaitRemoteRecv\<close>.
\<close>

definition update_session ::
  "sid \<Rightarrow> (PublisherSession \<Rightarrow> PublisherSession) \<Rightarrow> Publisher_Impl \<Rightarrow> Publisher_Impl" where
  "update_session s f st = st\<lparr>sessions := (sessions st)(s := f (sessions st s))\<rparr>"

definition sendDataBuffer :: "sid \<Rightarrow> byte list \<Rightarrow> Publisher_Impl \<Rightarrow> Publisher_Impl" where
  "sendDataBuffer s buf st =
     update_session s (\<lambda>x. x\<lparr>handed := handed x @ [SendDataBuffer buf]\<rparr>) st"

definition pushTransientBuffer :: "sid \<Rightarrow> byte list \<Rightarrow> Publisher_Impl \<Rightarrow> Publisher_Impl" where
  "pushTransientBuffer s buf st =
     update_session s (\<lambda>x. x\<lparr>handed := handed x @ [PushTransientBuffer buf]\<rparr>) st"

definition session_start :: "sid \<Rightarrow> Publisher_Impl \<Rightarrow> Publisher_Impl" where
  "session_start s st =
     update_session s
       (\<lambda>x. if handshake x = AwaitLocalSend then x\<lparr>handshake := AwaitRemoteRecv\<rparr> else x) st"

subsection \<open>The callbacks of \<open>acceptClient\<close>\<close>

text \<open>
  \<open>publisher_session_closed_handler\<close>: \<open>std::find\<close> and \<open>erase\<close> remove the first
  occurrence; a session that is not in the list is logged at Error.
\<close>

definition publisher_session_closed_handler :: "sid \<Rightarrow> Publisher_Impl \<Rightarrow> Publisher_Impl" where
  "publisher_session_closed_handler s st =
     (if s \<in> set (publisher_sessions st)
      then st\<lparr>publisher_sessions := remove1 s (publisher_sessions st)\<rparr>
      else log_call Error ''Trying to delete a non-existing publisher session.'' st)"

text \<open>\<open>purgeExpiredTransientLocalBuffers\<close>: the loop pops the front while it is over count or too old.\<close>

fun purgeExpiredTransientLocalBuffers ::
  "PublisherTransientLocalSetting \<Rightarrow> TransientLocalElement list \<Rightarrow> time_point \<Rightarrow>
   TransientLocalElement list" where
  "purgeExpiredTransientLocalBuffers cfg [] now_tp = []"
| "purgeExpiredTransientLocalBuffers cfg (e # es) now_tp =
     (if length (e # es) > unat (buffer_max_count cfg) \<or>
         (lifespan cfg > 0 \<and> now_tp - enqueue_tp e > lifespan cfg)
      then purgeExpiredTransientLocalBuffers cfg es now_tp
      else e # es)"

text \<open>\<open>transient_local_push_handler\<close>, the \<open>on_ready\<close> hook; \<open>now_tp\<close> is what the clock returns.\<close>

definition transient_local_push_handler ::
  "sid \<Rightarrow> time_point \<Rightarrow> Publisher_Impl \<Rightarrow> Publisher_Impl" where
  "transient_local_push_handler s now_tp st =
     (if buffer_max_count (transient_local_setting st) = 0 then st
      else
        let st1 = st\<lparr>transient_local_buffers :=
                       purgeExpiredTransientLocalBuffers (transient_local_setting st)
                         (transient_local_buffers st) now_tp\<rparr>;
            buffers_to_send = map buffer (transient_local_buffers st1)
        in if buffers_to_send = [] then st1
           else
             let big_buffer = concat buffers_to_send
             in if big_buffer = [] then st1
                else pushTransientBuffer s big_buffer st1)"

text \<open>
  Modelled from the spec: the terminal transition of a session (I/O error, protocol error
  or \<open>cancel\<close>). It closes the socket and fires \<open>on_closed\<close>, once: a session that is
  already \<open>Failed\<close> does nothing. \<open>Publisher_Impl::cancel\<close> copies the session list
  before it calls \<open>session->cancel()\<close> because the callback runs inside that call.
\<close>

definition session_closed :: "sid \<Rightarrow> Publisher_Impl \<Rightarrow> Publisher_Impl" where
  "session_closed s st =
     (if handshake (sessions st s) = Failed then st
      else publisher_session_closed_handler s
             (update_session s
                (\<lambda>x. x\<lparr>socket_open := False, handshake := Failed,
                        closed_callbacks := Suc (closed_callbacks x)\<rparr>) st))"

definition session_cancel :: "sid \<Rightarrow> Publisher_Impl \<Rightarrow> Publisher_Impl" where
  "session_cancel s st = session_closed s st"

text \<open>
  Modelled from the spec: the session reads the subscriber's handshake while it awaits it,
  becomes \<open>Established\<close> and invokes \<open>on_ready\<close>, which is \<open>transient_local_push_handler\<close>.
\<close>

definition session_handshake_received ::
  "sid \<Rightarrow> time_point \<Rightarrow> Publisher_Impl \<Rightarrow> Publisher_Impl" where
  "session_handshake_received s now_tp st =
     (if socket_open (sessions st s) \<and> handshake (sessions st s) = AwaitRemoteRecv
      then transient_local_push_handler s now_tp
             (update_session s (\<lambda>x. x\<lparr>handshake := Established\<rparr>) st)
      else st)"

subsection \<open>\<open>start\<close>, \<open>acceptClient\<close> and \<open>cancel\<close>\<close>

text \<open>The error codes the system reports to \<open>start\<close>: \<open>True\<close> is an error.\<close>

record start_ec =
  make_address_ec :: bool
  open_ec :: bool
  set_option_ec :: bool
  bind_ec :: bool
  listen_ec :: bool

definition update_acceptor ::
  "(acceptor_state \<Rightarrow> acceptor_state) \<Rightarrow> Publisher_Impl \<Rightarrow> Publisher_Impl" where
  "update_acceptor f st = st\<lparr>acceptor := f (acceptor st)\<rparr>"

text \<open>\<open>acceptClient\<close> makes a new session and waits for a connection on its socket.\<close>

definition acceptClient :: "Publisher_Impl \<Rightarrow> Publisher_Impl" where
  "acceptClient st =
     (let session = next_session st
      in update_acceptor (\<lambda>a. a\<lparr>pending_accept := Some session\<rparr>)
           (st\<lparr>next_session := Suc session\<rparr>))"

definition start :: "start_ec \<Rightarrow> Publisher_Impl \<Rightarrow> bool \<times> Publisher_Impl" where
  "start ec st =
     (if make_address_ec ec then (False, log_call Error ''Error parsing address'' st)
      else if open_ec ec then (False, log_call Error ''Error opening acceptor'' st)
      else
        let st1 = update_acceptor (\<lambda>a. a\<lparr>is_open := True\<rparr>) st
        in if set_option_ec ec
           then (False, log_call Error ''Error setting reuse_address option'' st1)
           else
             let st2 = update_acceptor (\<lambda>a. a\<lparr>reuse_address := True\<rparr>) st1
             in if bind_ec ec then (False, log_call Error ''Error binding acceptor'' st2)
                else
                  let st3 = update_acceptor (\<lambda>a. a\<lparr>bound := True\<rparr>) st2
                  in if listen_ec ec
                     then (False, log_call Error ''Error listening on acceptor'' st3)
                     else
                       let st4 = update_acceptor (\<lambda>a. a\<lparr>listening := True\<rparr>) st3;
                           st5 = log_call Info ''Created publisher and waiting for clients.'' st4;
                           st6 = st5\<lparr>is_running := True\<rparr>
                       in (True, acceptClient st6))"

text \<open>
  The completion handler of \<open>async_accept\<close>, with the error code it is given. A
  successful accept has connected the socket of the waiting session.
\<close>

datatype accept_ec = Accepted | Operation_canceled | Accept_error

definition accept_handler :: "accept_ec \<Rightarrow> Publisher_Impl \<Rightarrow> Publisher_Impl" where
  "accept_handler ec st =
     (case pending_accept (acceptor st) of
        None \<Rightarrow> st
      | Some session \<Rightarrow>
          let st0 = update_acceptor (\<lambda>a. a\<lparr>pending_accept := None\<rparr>) st
          in (case ec of
                Operation_canceled \<Rightarrow> log_call Info ''Error while waiting for subsriber'' st0
              | Accept_error \<Rightarrow> log_call Error ''Error while waiting for subsriber'' st0
              | Accepted \<Rightarrow>
                  let st1 = log_call Info ''Subscriber has connected.'' st0;
                      st2 = update_session session (\<lambda>x. x\<lparr>socket_open := True\<rparr>) st1;
                      st3 = session_start session st2;
                      st4 = st3\<lparr>publisher_sessions := publisher_sessions st3 @ [session]\<rparr>
                  in acceptClient st4))"

text \<open>
  \<open>cancel\<close>: \<open>close\<close> and \<open>cancel\<close> of the acceptor with their error codes dropped, the
  flag, and \<open>cancel\<close> of every session of the copied list.
\<close>

definition acceptor_close :: "acceptor_state \<Rightarrow> acceptor_state" where
  "acceptor_close a =
     a\<lparr>is_open := False, reuse_address := False, bound := False, listening := False\<rparr>"

definition cancel :: "Publisher_Impl \<Rightarrow> Publisher_Impl" where
  "cancel st =
     (let st1 = update_acceptor acceptor_close st;
          st2 = st1\<lparr>is_running := False\<rparr>;
          publisher_sessions' = publisher_sessions st2
      in foldl (\<lambda>x session. session_cancel session x) st2 publisher_sessions')"

text \<open>\<open>Publisher::~Publisher\<close> and \<open>Publisher_Impl::~Publisher_Impl\<close>.\<close>

definition Publisher_destructor :: "Publisher_Impl \<Rightarrow> Publisher_Impl" where
  "Publisher_destructor st = cancel st"

definition Publisher_Impl_destructor :: "Publisher_Impl \<Rightarrow> Publisher_Impl" where
  "Publisher_Impl_destructor st = (if is_running st then cancel st else st)"

subsection \<open>\<open>send\<close>\<close>

text \<open>
  \<open>pooled\<close> is the vector \<open>buffer_pool.allocate()\<close> returns and \<open>now_tp\<close> the value of the
  clock; the result is the returned flag and the publisher afterwards, or the fault.
\<close>

definition send ::
  "payload list \<Rightarrow> byte list \<Rightarrow> time_point \<Rightarrow> Publisher_Impl \<Rightarrow> fault + bool \<times> Publisher_Impl" where
  "send payloads pooled now_tp st =
     (if \<not> is_running st
      then Inr (False, log_call Error ''Tried to send data to a non-running publisher.'' st)
      else if buffer_max_count (transient_local_setting st) = 0 \<and> publisher_sessions st = []
      then Inr (True, st)
      else
        let st1 = st\<lparr>pool_allocations := Suc (pool_allocations st)\<rparr>
        in case fill_buffer pooled payloads of
             Inl e \<Rightarrow> Inl e
           | Inr buf \<Rightarrow>
               let st2 = foldl (\<lambda>x session. sendDataBuffer session buf x) st1
                           (publisher_sessions st1);
                   st3 = (if buffer_max_count (transient_local_setting st2) > 0
                          then st2\<lparr>transient_local_buffers :=
                                     purgeExpiredTransientLocalBuffers (transient_local_setting st2)
                                       (transient_local_buffers st2 @
                                          [\<lparr>buffer = buf, enqueue_tp = now_tp\<rparr>])
                                       now_tp\<rparr>
                          else st2)
               in Inr (True, st3))"

section \<open>Runs of the publisher\<close>

text \<open>
  What happens to a publisher, one event at a time: the calls of its owner (\<open>start\<close>,
  \<open>cancel\<close>, \<open>send\<close>) and the completions the reactor delivers (an accept, the
  subscriber's handshake on a session, an I/O error on a session). Each handler runs
  under the publisher's locks and is one step. An I/O error can only reach a session whose
  socket is connected.
\<close>

datatype event =
    Start start_ec
  | Cancel
  | Accept_completed accept_ec
  | Handshake_received sid time_point
  | Session_error sid
  | Send "payload list" "byte list" time_point

definition session_error :: "sid \<Rightarrow> Publisher_Impl \<Rightarrow> Publisher_Impl" where
  "session_error s st = (if socket_open (sessions st s) then session_closed s st else st)"

fun step :: "event \<Rightarrow> Publisher_Impl \<Rightarrow> fault + Publisher_Impl" where
  "step (Start ec) st = Inr (snd (start ec st))"
| "step Cancel st = Inr (cancel st)"
| "step (Accept_completed ec) st = Inr (accept_handler ec st)"
| "step (Handshake_received s now_tp) st = Inr (session_handshake_received s now_tp st)"
| "step (Session_error s) st = Inr (session_error s st)"
| "step (Send payloads pooled now_tp) st =
     (case send payloads pooled now_tp st of Inl e \<Rightarrow> Inl e | Inr r \<Rightarrow> Inr (snd r))"

fun exec :: "event list \<Rightarrow> Publisher_Impl \<Rightarrow> fault + Publisher_Impl" where
  "exec [] st = Inr st"
| "exec (ev # evs) st = (case step ev st of Inl e \<Rightarrow> Inl e | Inr st' \<Rightarrow> exec evs st')"

text \<open>The values of \<open>steady_clock::now()\<close> along a run; the clock is monotonic.\<close>

fun clock_reading :: "event \<Rightarrow> time_point list" where
  "clock_reading (Handshake_received s now_tp) = [now_tp]"
| "clock_reading (Send payloads pooled now_tp) = [now_tp]"
| "clock_reading other = []"

definition clock_readings :: "event list \<Rightarrow> time_point list" where
  "clock_readings evs = concat (map clock_reading evs)"

section \<open>Notions used in the statements\<close>

text \<open>
  The bytes \<open>memcpy\<close> reads for an entry, the sum of the declared lengths as a number, and
  the condition that the declared length of an entry lies within the memory its pointer
  refers to.
\<close>

definition payload_bytes :: "payload \<Rightarrow> byte list" where
  "payload_bytes p = (case fst p of None \<Rightarrow> [] | Some m \<Rightarrow> take (unat (snd p)) m)"

definition payload_lengths :: "payload list \<Rightarrow> nat" where
  "payload_lengths payloads = sum_list (map (\<lambda>p. unat (snd p)) payloads)"

definition readable :: "payload \<Rightarrow> bool" where
  "readable p = (case fst p of None \<Rightarrow> True | Some m \<Rightarrow> unat (snd p) \<le> length m)"

text \<open>The entries of the transient-local buffer are in the order of their time stamps.\<close>

definition enqueue_sorted :: "TransientLocalElement list \<Rightarrow> bool" where
  "enqueue_sorted bufs = sorted (map enqueue_tp bufs)"

text \<open>
  What holds of the transient-local buffer when the clock has been read last at \<open>t\<close>: it
  is in order, no entry is stamped later than \<open>t\<close>, and it is within the count.
\<close>

definition retained_inv :: "time_point \<Rightarrow> Publisher_Impl \<Rightarrow> bool" where
  "retained_inv t st =
     (enqueue_sorted (transient_local_buffers st) \<and>
      (\<forall>e\<in>set (transient_local_buffers st). enqueue_tp e \<le> t) \<and>
      length (transient_local_buffers st) \<le> unat (buffer_max_count (transient_local_setting st)))"

text \<open>How far \<open>start\<close> gets: the calls that are made and report no error.\<close>

definition opened :: "start_ec \<Rightarrow> bool" where
  "opened ec = (\<not> make_address_ec ec \<and> \<not> open_ec ec)"

definition option_set :: "start_ec \<Rightarrow> bool" where
  "option_set ec = (opened ec \<and> \<not> set_option_ec ec)"

definition bind_done :: "start_ec \<Rightarrow> bool" where
  "bind_done ec = (option_set ec \<and> \<not> bind_ec ec)"

definition listen_done :: "start_ec \<Rightarrow> bool" where
  "listen_done ec = (bind_done ec \<and> \<not> listen_ec ec)"





section \<open>Publishers, payloads and runs to evaluate on\<close>

text \<open>
  A setting with two retained frames and a lifespan of 50 ticks; a publisher after a
  successful \<open>start\<close>, with transient-local enabled and disabled; the first after one
  accepted subscriber, and with two retained buffers.
\<close>

definition ok_ec :: start_ec where
  "ok_ec = \<lparr>make_address_ec = False, open_ec = False, set_option_ec = False, bind_ec = False,
            listen_ec = False\<rparr>"

definition bind_fails :: start_ec where
  "bind_fails = \<lparr>make_address_ec = False, open_ec = False, set_option_ec = False, bind_ec = True,
                 listen_ec = False\<rparr>"

definition example_setting :: PublisherTransientLocalSetting where
  "example_setting = \<lparr>buffer_max_count = 2, lifespan = 50\<rparr>"

definition example_publisher0 :: Publisher_Impl where
  "example_publisher0 = snd (start ok_ec (Publisher_Impl_new example_setting))"

definition example_publisher_disabled :: Publisher_Impl where
  "example_publisher_disabled =
     snd (start ok_ec (Publisher_Impl_new \<lparr>buffer_max_count = 0, lifespan = 0\<rparr>))"

definition example_publisher :: Publisher_Impl where
  "example_publisher = accept_handler Accepted (snd (start ok_ec (Publisher_Impl_new example_setting)))"

definition example_retaining :: Publisher_Impl where
  "example_retaining =
     example_publisher\<lparr>transient_local_buffers :=
       [\<lparr>buffer = [1, 2], enqueue_tp = 40\<rparr>, \<lparr>buffer = [3], enqueue_tp = 60\<rparr>]\<rparr>"

text \<open>
  Payloads with an empty entry, payloads with a null entry of declared length 3, and a
  recycled vector of thirty bytes \<open>0xAA\<close>.
\<close>

definition example_payloads :: "payload list" where
  "example_payloads = [(Some [1, 2, 3, 7], 3), (None, 0), (Some [4, 5], 2)]"

definition null_payloads :: "payload list" where
  "null_payloads = [(Some [1, 2], 2), (None, 3), (Some [4, 5], 2)]"

definition recycled :: "byte list" where
  "recycled = replicate 30 170"

text \<open>Runs: two frames sent at 10 and 20 with no subscriber; one accepted subscriber.\<close>

definition example_run :: "event list" where
  "example_run = [Start ok_ec, Send [] [] 10, Send [] [] 20]"


section \<open>The frame that \<open>send\<close> builds\<close>

lemma length_le_bytes: "length (le_bytes n w) = n"
  by (simp add: le_bytes_def)

lemma length_htole16: "length (htole16 w) = 2"
  by (simp add: htole16_def length_le_bytes)

lemma length_htole64: "length (htole64 w) = 8"
  by (simp add: htole64_def length_le_bytes)

lemma length_resize: "length (resize v n) = n"
  by (simp add: resize_def)

lemma fill_header_ok:
  assumes "16 \<le> length buf"
  shows "fill_header buf d =
           Inr (htole16 16 @ [RegularPayload, 0] @ htole64 d @ drop 12 buf)"
  using assms
  by (simp add: fill_header_def write_bytes_def offset_header_size_def offset_type_def
      offset_reserved_def offset_data_size_def sizeof_TcpHeader_def length_htole16 length_htole64)

lemma entire_payload_size_foldl:
  "foldl (\<lambda>s p. s + snd p) a ps = a + sum_list (map snd ps)"
  for a :: size_t
  by (induction ps arbitrary: a) (simp_all add: ac_simps)

lemma unat_entire_payload_size:
  "unat (entire_payload_size ps) = payload_lengths ps mod 2 ^ 64"
proof -
  have "entire_payload_size ps = of_nat (payload_lengths ps)"
    unfolding entire_payload_size_def entire_payload_size_foldl payload_lengths_def
    by (induction ps) simp_all
  then show ?thesis by (simp add: unat_of_nat)
qed


lemma memcpy_ok:
  assumes "n \<le> length src" "pos + n \<le> length buf"
  shows "memcpy buf pos src n = Inr (take pos buf @ take n src @ drop (pos + n) buf)"
  using assms by (simp add: memcpy_def write_bytes_def)

lemma copy_payloads_ok:
  assumes "\<forall>p\<in>set ps. readable p"
    and "unat pos + length (concat (map payload_bytes ps)) \<le> length buf"
    and "length buf < 2 ^ 64"
  shows "copy_payloads ps pos buf =
           Inr (take (unat pos) buf @ concat (map payload_bytes ps) @
                drop (unat pos + length (concat (map payload_bytes ps))) buf)"
  using assms
proof (induction ps pos buf rule: copy_payloads.induct)
  case (1 pos buf)
  then show ?case by simp
next
  case (2 n ps pos buf)
  then show ?case by (simp add: payload_bytes_def)
next
  case (3 m n ps pos buf)
  show ?case
  proof (cases "n > 0")
    case False
    then have n0: "n = 0" by (simp add: word_gt_0)
    with 3 show ?thesis by (simp add: payload_bytes_def)
  next
    case True
    have rd: "unat n \<le> length m" using 3(3) by (simp add: readable_def)
    have pb: "payload_bytes (Some m, n) = take (unat n) m" by (simp add: payload_bytes_def)
    have len: "length (take (unat n) m) = unat n" using rd by simp
    let ?rest = "concat (map payload_bytes ps)"
    have bound: "unat pos + unat n + length ?rest \<le> length buf"
      using 3(4) pb len by simp
    let ?buf' = "take (unat pos) buf @ take (unat n) m @ drop (unat pos + unat n) buf"
    have mc: "memcpy buf (unat pos) m (unat n) = Inr ?buf'"
      using rd bound by (intro memcpy_ok) simp_all
    have lb: "length ?buf' = length buf" using bound len by simp
    have up: "unat (pos + n) = unat pos + unat n"
      using bound 3(5) by (simp add: unat_word_ariths)
    have ih: "copy_payloads ps (pos + n) ?buf' =
           Inr (take (unat (pos + n)) ?buf' @ ?rest @
                drop (unat (pos + n) + length ?rest) ?buf')"
      using True mc 3(3) bound lb 3(5) up
      by (intro 3(1)) simp_all
    have t: "take (unat pos + unat n) ?buf' = take (unat pos) buf @ take (unat n) m"
      using bound len by simp
    have d: "drop (unat pos + unat n + length ?rest) ?buf' = drop (unat pos + unat n + length ?rest) buf"
      using bound len by (simp add: ac_simps)
    have lhs: "copy_payloads ((Some m, n) # ps) pos buf = copy_payloads ps (pos + n) ?buf'"
      using True mc by simp
    have cc: "concat (map payload_bytes ((Some m, n) # ps)) = take (unat n) m @ ?rest"
      by (simp add: pb)
    have lc: "unat pos + length (take (unat n) m @ ?rest) = unat pos + unat n + length ?rest"
      using len by simp
    show ?thesis
      unfolding lhs ih up t d cc lc by simp
  qed
qed

lemma length_concat_payload_bytes_le:
  "\<forall>p\<in>set ps. readable p \<Longrightarrow> length (concat (map payload_bytes ps)) \<le> payload_lengths ps"
  by (induction ps) (auto simp: payload_lengths_def readable_def payload_bytes_def split: option.splits)

lemma length_concat_payload_bytes_eq:
  "\<forall>p\<in>set ps. readable p \<Longrightarrow> \<forall>p\<in>set ps. snd p \<noteq> 0 \<longrightarrow> fst p \<noteq> None \<Longrightarrow>
   length (concat (map payload_bytes ps)) = payload_lengths ps"
  by (induction ps) (auto simp: payload_lengths_def readable_def payload_bytes_def split: option.splits)

lemma fill_buffer_ok:
  assumes rd: "\<forall>p\<in>set ps. readable p"
    and fits: "16 + payload_lengths ps < 2 ^ 64"
  shows "fill_buffer pooled ps =
           Inr (htole16 16 @ [RegularPayload, 0] @ htole64 (of_nat (payload_lengths ps)) @
                take 4 (drop 12 (resize pooled (16 + payload_lengths ps))) @
                concat (map payload_bytes ps) @
                drop (16 + length (concat (map payload_bytes ps)))
                  (resize pooled (16 + payload_lengths ps)))"
proof -
  let ?N = "16 + payload_lengths ps"
  let ?R = "resize pooled ?N"
  let ?body = "concat (map payload_bytes ps)"
  have e: "entire_payload_size ps = of_nat (payload_lengths ps)"
    by (simp add: word_eq_iff_unsigned [where ?'a = nat] unat_entire_payload_size unat_of_nat)
  have ue: "unat (entire_payload_size ps) = payload_lengths ps"
    using fits by (simp add: unat_entire_payload_size)
  have uc: "unat (sizeof_TcpHeader + entire_payload_size ps) = ?N"
    using fits ue by (simp add: unat_word_ariths sizeof_TcpHeader_def)
  let ?H = "htole16 16 @ [RegularPayload, 0] @ htole64 (of_nat (payload_lengths ps)) @ drop 12 ?R"
  have lR: "length ?R = ?N" by (rule length_resize)
  have fh: "fill_header ?R (entire_payload_size ps) = Inr ?H"
    unfolding e by (rule fill_header_ok) (simp add: lR)
  have lH: "length ?H = ?N"
    by (simp add: length_htole16 length_htole64 lR)
  have le: "length ?body \<le> payload_lengths ps"
    using rd by (rule length_concat_payload_bytes_le)
  have u16: "unat sizeof_TcpHeader = 16" by (simp add: sizeof_TcpHeader_def)
  have cp: "copy_payloads ps sizeof_TcpHeader ?H =
      Inr (take (unat sizeof_TcpHeader) ?H @ ?body @ drop (unat sizeof_TcpHeader + length ?body) ?H)"
  proof (rule copy_payloads_ok [OF rd])
    show "unat sizeof_TcpHeader + length ?body \<le> length ?H"
      unfolding lH u16 using le by simp
    show "length ?H < 2 ^ 64"
      unfolding lH using fits by simp
  qed
  have t: "take 16 ?H = htole16 16 @ [RegularPayload, 0] @ htole64 (of_nat (payload_lengths ps)) @ take 4 (drop 12 ?R)"
    by (simp add: length_htole16 length_htole64)
  have d: "drop (16 + length ?body) ?H = drop (16 + length ?body) ?R"
  proof -
    define P where "P = htole16 16 @ [RegularPayload, 0] @ htole64 (of_nat (payload_lengths ps))"
    have lP: "length P = 12" by (simp add: P_def length_htole16 length_htole64)
    have "drop (16 + length ?body) (P @ drop 12 ?R) = drop (4 + length ?body) (drop 12 ?R)"
      by (simp add: lP)
    also have "\<dots> = drop (16 + length ?body) ?R"
      by (simp add: ac_simps)
    finally show ?thesis by (simp add: P_def)
  qed
  have "fill_buffer pooled ps = copy_payloads ps sizeof_TcpHeader ?H"
    unfolding fill_buffer_def Let_def uc fh by simp
  also have "\<dots> = Inr (take 16 ?H @ ?body @ drop (16 + length ?body) ?H)"
    unfolding cp u16 ..
  finally show ?thesis
    unfolding t d by simp
qed

lemma unat_le_bytes_nth:
  "i < n \<Longrightarrow> unat (le_bytes n w ! i) = unat w div 256 ^ i mod 256"
proof -
  assume "i < n"
  then have "unat (le_bytes n w ! i) = unat (ucast (drop_bit (8 * i) w) :: byte)"
    by (simp add: le_bytes_def)
  also have "\<dots> = take_bit 8 (unat (drop_bit (8 * i) w))"
    by (simp add: unsigned_ucast_eq del: unat_drop_bit_eq drop_bit_eq_div)
  also have "\<dots> = take_bit 8 (drop_bit (8 * i) (unat w))"
    by (simp only: unat_drop_bit_eq)
  also have "\<dots> = unat w div 256 ^ i mod 256"
    by (simp add: take_bit_eq_mod drop_bit_eq_div power_mult)
  finally show ?thesis .
qed

lemma htole16_16: "htole16 16 = [16, 0]"
  by (simp add: htole16_def le_bytes_def upt_rec)

lemma foldl_sendDataBuffer:
  "foldl (\<lambda>x s. sendDataBuffer s buf x) st L =
     st\<lparr>sessions := (\<lambda>s. (sessions st s)\<lparr>handed := handed (sessions st s) @
                          replicate (count_list L s) (SendDataBuffer buf)\<rparr>)\<rparr>"
proof (induction L arbitrary: st)
  case Nil
  show ?case by simp
next
  case (Cons a L)
  have "foldl (\<lambda>x s. sendDataBuffer s buf x) st (a # L) =
        foldl (\<lambda>x s. sendDataBuffer s buf x) (sendDataBuffer a buf st) L"
    by simp
  also note Cons [of "sendDataBuffer a buf st"]
  finally show ?case
    by (simp add: sendDataBuffer_def update_session_def fun_eq_iff replicate_app_Cons_same)
qed

lemma send_dispatch:
  assumes "is_running st"
    and "buffer_max_count (transient_local_setting st) \<noteq> 0 \<or> publisher_sessions st \<noteq> []"
    and "fill_buffer pooled payloads = Inr buf"
  shows "send payloads pooled now_tp st =
           Inr (True,
             st\<lparr>pool_allocations := Suc (pool_allocations st),
                sessions := (\<lambda>s. (sessions st s)\<lparr>handed := handed (sessions st s) @
                     replicate (count_list (publisher_sessions st) s) (SendDataBuffer buf)\<rparr>),
                transient_local_buffers :=
                  (if buffer_max_count (transient_local_setting st) = 0
                   then transient_local_buffers st
                   else purgeExpiredTransientLocalBuffers (transient_local_setting st)
                          (transient_local_buffers st @ [\<lparr>buffer = buf, enqueue_tp = now_tp\<rparr>])
                          now_tp)\<rparr>)"
  using assms
  by (auto simp add: send_def Let_def foldl_sendDataBuffer word_gt_0)

section \<open>Evaluation of the examples\<close>

lemma example_publisher_simps:
  "is_running example_publisher"
  "publisher_sessions example_publisher = [0]"
  "transient_local_setting example_publisher = example_setting"
  "transient_local_buffers example_publisher = []"
  "pool_allocations example_publisher = 0"
  "handed (sessions example_publisher s) = []"
  by (simp_all add: example_publisher_def accept_handler_def start_def ok_ec_def
      Publisher_Impl_new_def update_acceptor_def acceptClient_def log_call_def Let_def
      session_start_def update_session_def new_session_def)

lemma example_payloads_simps:
  "\<forall>p\<in>set example_payloads. snd p \<noteq> 0 \<longrightarrow> fst p \<noteq> None"
  "\<forall>p\<in>set example_payloads. readable p"
  "payload_lengths example_payloads = 5"
  "concat (map payload_bytes example_payloads) = [1, 2, 3, 4, 5]"
  by (simp_all add: example_payloads_def readable_def payload_lengths_def payload_bytes_def)

text \<open>
  The two frames in full. In the second the entry of declared length 3 is counted in the
  size field and skipped by the copy, and the bytes that no store reaches (the padding of
  the header and the last three) are those of the recycled vector.
\<close>

lemma fill_buffer_example:
  "fill_buffer [9, 9] example_payloads =
     Inr [16, 0, 0, 0, 5, 0, 0, 0, 0, 0, 0, 0, 0, 0, 0, 0, 1, 2, 3, 4, 5]"
  by code_simp

lemma fill_buffer_null_example:
  "fill_buffer recycled null_payloads =
     Inr [16, 0, 0, 0, 7, 0, 0, 0, 0, 0, 0, 0, 170, 170, 170, 170, 1, 2, 4, 5, 170, 170, 170]"
  by code_simp

section \<open>The frame handed to the sessions\<close>

text \<open>
  C1. When the publisher is running, it has a session or transient-local is enabled, and
  every entry with a nonzero length has a non-null pointer (whose memory holds that many
  bytes, the sizes adding up within \<open>size_t\<close>), \<open>send\<close> returns true and hands every
  session of the list the same buffer: bytes 0 and 1 are 16 in little-endian order, byte 2
  is \<open>RegularPayload = 0\<close>, byte 3 is 0, bytes 4 to 11 are the sum of the payload lengths in
  little-endian order, and from byte 16 on the buffer is the concatenation of the payloads
  in the order of the argument.
\<close>

theorem send_frame:
  assumes "is_running st"
    and "publisher_sessions st \<noteq> [] \<or> buffer_max_count (transient_local_setting st) \<noteq> 0"
    and "\<forall>p\<in>set payloads. snd p \<noteq> 0 \<longrightarrow> fst p \<noteq> None"
    and "\<forall>p\<in>set payloads. readable p"
    and "16 + payload_lengths payloads < 2 ^ 64"
  shows "\<exists>buf st'.
      send payloads pooled now_tp st = Inr (True, st') \<and>
      (\<forall>s. handed (sessions st' s) =
             handed (sessions st s) @
             replicate (count_list (publisher_sessions st) s) (SendDataBuffer buf)) \<and>
      length buf = 16 + payload_lengths payloads \<and>
      take 2 buf = [16, 0] \<and>
      buf ! 2 = RegularPayload \<and> RegularPayload = 0 \<and>
      buf ! 3 = 0 \<and>
      (\<forall>i<8. unat (buf ! (4 + i)) = payload_lengths payloads div 256 ^ i mod 256) \<and>
      drop 16 buf = concat (map payload_bytes payloads)"
proof -
  let ?N = "16 + payload_lengths payloads"
  let ?body = "concat (map payload_bytes payloads)"
  define pad where "pad = take 4 (drop 12 (resize pooled ?N))"
  define size_field where "size_field = htole64 (of_nat (payload_lengths payloads))"
  define buf where "buf = [16, 0] @ [RegularPayload, 0] @ size_field @ pad @ ?body"
  have lb: "length ?body = payload_lengths payloads"
    using assms(4) assms(3) by (rule length_concat_payload_bytes_eq)
  have lpad: "length pad = 4"
    by (simp add: pad_def length_resize)
  have lsz: "length size_field = 8"
    by (simp add: size_field_def length_htole64)
  have fb: "fill_buffer pooled payloads = Inr buf"
    unfolding fill_buffer_ok [OF assms(4) assms(5)] lb buf_def pad_def size_field_def htole16_16
    by (simp add: length_resize)
  note sd = send_dispatch [OF assms(1) _ fb, of now_tp]
  have nth: "\<forall>i<8. unat (buf ! (4 + i)) = payload_lengths payloads div 256 ^ i mod 256"
  proof (intro allI impI)
    fix i :: nat
    assume i: "i < 8"
    have "buf ! (4 + i) = size_field ! i"
      using i lsz by (simp add: buf_def nth_append)
    moreover have "unat (size_field ! i) = unat (of_nat (payload_lengths payloads) :: size_t) div 256 ^ i mod 256"
      unfolding size_field_def htole64_def using i by (rule unat_le_bytes_nth)
    moreover have "unat (of_nat (payload_lengths payloads) :: size_t) = payload_lengths payloads"
      using assms(5) by (simp add: unat_of_nat)
    ultimately show "unat (buf ! (4 + i)) = payload_lengths payloads div 256 ^ i mod 256"
      by simp
  qed
  have d16: "drop 16 buf = ?body"
    by (simp add: buf_def lsz lpad)
  have len: "length buf = ?N"
    by (simp add: buf_def lsz lpad lb)
  show ?thesis
    apply (rule exI [of _ buf])
    apply (subst sd)
    using assms(2) apply blast
    apply (rule exI)
    apply (intro conjI)
            apply (rule refl)
           apply simp
          apply (rule len)
         apply (simp add: buf_def)
        apply (simp add: buf_def)
       apply (simp add: RegularPayload_def)
      apply (simp add: buf_def)
     apply (rule nth)
    apply (rule d16)
    done
qed

theorem send_frame_witness:
  "is_running example_publisher \<and>
   publisher_sessions example_publisher = [0] \<and>
   list_all readable example_payloads \<and>
   16 + payload_lengths example_payloads < (2::nat) ^ 64 \<and>
   (\<exists>buf st'.
      send example_payloads [9, 9] 7 example_publisher = Inr (True, st') \<and>
      handed (sessions st' 0) = [SendDataBuffer buf] \<and>
      length buf = 21 \<and> take 4 buf = [16, 0, 0, 0] \<and>
      map unat (take 8 (drop 4 buf)) = [5, 0, 0, 0, 0, 0, 0, 0] \<and>
      drop 16 buf = [1, 2, 3, 4, 5])"
proof -
  have h1: "is_running example_publisher"
    by (simp add: example_publisher_simps)
  have h2: "publisher_sessions example_publisher \<noteq> [] \<or>
      buffer_max_count (transient_local_setting example_publisher) \<noteq> 0"
    by (simp add: example_publisher_simps)
  have h3: "\<forall>p\<in>set example_payloads. snd p \<noteq> 0 \<longrightarrow> fst p \<noteq> None"
    by (rule example_payloads_simps)
  have h4: "\<forall>p\<in>set example_payloads. readable p"
    by (rule example_payloads_simps)
  have h5: "16 + payload_lengths example_payloads < 2 ^ 64"
    by (simp add: example_payloads_simps)
  from send_frame [OF h1 h2 h3 h4 h5, of "[9, 9]" 7]
  obtain buf st' where
    s: "send example_payloads [9, 9] 7 example_publisher = Inr (True, st')"
    and h: "\<forall>s. handed (sessions st' s) =
             handed (sessions example_publisher s) @
             replicate (count_list (publisher_sessions example_publisher) s) (SendDataBuffer buf)"
    and l: "length buf = 16 + payload_lengths example_payloads"
    and t2: "take 2 buf = [16, 0]"
    and b2: "buf ! 2 = RegularPayload" "RegularPayload = 0"
    and b3: "buf ! 3 = 0"
    and sz: "\<forall>i<8. unat (buf ! (4 + i)) = payload_lengths example_payloads div 256 ^ i mod 256"
    and bd: "drop 16 buf = concat (map payload_bytes example_payloads)"
    by blast
  have l21: "length buf = 21" using l by (simp add: example_payloads_simps)
  have t4: "take 4 buf = [16, 0, 0, 0]"
  proof -
    have "take 4 buf = take 2 buf @ [buf ! 2, buf ! 3]"
      using l21 by (simp add: list_eq_iff_nth_eq nth_append less_Suc_eq numeral_eq_Suc)
    then show ?thesis using t2 b2 b3 by simp
  qed
  have m: "map unat (take 8 (drop 4 buf)) = [5, 0, 0, 0, 0, 0, 0, 0]"
  proof -
    have "map unat (take 8 (drop 4 buf)) = map (\<lambda>i. unat (buf ! (4 + i))) [0..<8]"
      using l21 by (simp add: list_eq_iff_nth_eq)
    also have "\<dots> = map (\<lambda>i. 5 div 256 ^ i mod 256) [0..<8]"
      using sz by (simp add: example_payloads_simps)
    also have "\<dots> = [5, 0, 0, 0, 0, 0, 0, 0]"
      by (simp add: upt_rec)
    finally show ?thesis .
  qed
  show ?thesis
    using h1 h4 h5 s h l21 t4 m bd
    by (auto simp add: example_publisher_simps example_payloads_simps list_all_iff)
qed

section \<open>The result of \<open>send\<close>\<close>

lemma sessions_update_id [simp]: "st\<lparr>sessions := (\<lambda>s. sessions st s)\<rparr> = st"
  by simp






lemma fill_buffer_returns:
  assumes "\<forall>p\<in>set payloads. readable p" "16 + payload_lengths payloads < 2 ^ 64"
  shows "\<exists>buf. fill_buffer pooled payloads = Inr buf \<and> length buf = 16 + payload_lengths payloads"
proof -
  have le: "length (concat (map payload_bytes payloads)) \<le> payload_lengths payloads"
    using assms(1) by (rule length_concat_payload_bytes_le)
  show ?thesis
    unfolding fill_buffer_ok [OF assms]
    using le by (simp add: length_htole16 length_htole64 length_resize)
qed


lemma example_publisher0_simps:
  "is_running example_publisher0"
  "publisher_sessions example_publisher0 = []"
  "transient_local_setting example_publisher0 = example_setting"
  "transient_local_buffers example_publisher0 = []"
  "pool_allocations example_publisher0 = 0"
  by (simp_all add: example_publisher0_def start_def ok_ec_def
      Publisher_Impl_new_def update_acceptor_def acceptClient_def log_call_def Let_def)

lemma example_publisher_disabled_simps:
  "is_running example_publisher_disabled"
  "publisher_sessions example_publisher_disabled = []"
  "buffer_max_count (transient_local_setting example_publisher_disabled) = 0"
  by (simp_all add: example_publisher_disabled_def start_def ok_ec_def
      Publisher_Impl_new_def update_acceptor_def acceptClient_def log_call_def Let_def)










section \<open>The transient-local buffer\<close>

lemma purge_suffix:
  "\<exists>k. purgeExpiredTransientLocalBuffers cfg bufs now_tp = drop k bufs"
proof (induction bufs)
  case Nil
  show ?case by simp
next
  case (Cons e es)
  from Cons obtain k where k: "purgeExpiredTransientLocalBuffers cfg es now_tp = drop k es" by blast
  show ?case
  proof (cases "length (e # es) > unat (buffer_max_count cfg) \<or>
         (lifespan cfg > 0 \<and> now_tp - enqueue_tp e > lifespan cfg)")
    case True
    then have "purgeExpiredTransientLocalBuffers cfg (e # es) now_tp = drop (Suc k) (e # es)"
      using k by simp
    then show ?thesis by blast
  next
    case False
    then have "purgeExpiredTransientLocalBuffers cfg (e # es) now_tp = drop 0 (e # es)"
      by auto
    then show ?thesis by blast
  qed
qed

lemma purge_length:
  "length (purgeExpiredTransientLocalBuffers cfg bufs now_tp) \<le> unat (buffer_max_count cfg)"
  by (induction bufs) auto

lemma purge_sorted:
  assumes "enqueue_sorted bufs"
  shows "enqueue_sorted (purgeExpiredTransientLocalBuffers cfg bufs now_tp)"
proof -
  obtain k where "purgeExpiredTransientLocalBuffers cfg bufs now_tp = drop k bufs"
    using purge_suffix by blast
  then show ?thesis
    using assms by (simp add: enqueue_sorted_def drop_map [symmetric])
qed

lemma purge_subset:
  "set (purgeExpiredTransientLocalBuffers cfg bufs now_tp) \<subseteq> set bufs"
proof -
  obtain k where "purgeExpiredTransientLocalBuffers cfg bufs now_tp = drop k bufs"
    using purge_suffix by blast
  then show ?thesis by (simp add: set_drop_subset)
qed

lemma purge_age:
  assumes "enqueue_sorted bufs" "lifespan cfg > 0"
  shows "\<forall>e\<in>set (purgeExpiredTransientLocalBuffers cfg bufs now_tp).
           now_tp - enqueue_tp e \<le> lifespan cfg"
  using assms(1)
proof (induction bufs)
  case Nil
  show ?case by simp
next
  case (Cons e es)
  have es: "enqueue_sorted es" using Cons.prems by (simp add: enqueue_sorted_def)
  show ?case
  proof (cases "length (e # es) > unat (buffer_max_count cfg) \<or>
         (lifespan cfg > 0 \<and> now_tp - enqueue_tp e > lifespan cfg)")
    case True
    then show ?thesis using Cons.IH [OF es] by simp
  next
    case False
    then have young: "now_tp - enqueue_tp e \<le> lifespan cfg" using assms(2) by auto
    have "\<forall>x\<in>set es. enqueue_tp e \<le> enqueue_tp x"
      using Cons.prems by (auto simp: enqueue_sorted_def)
    then have "\<forall>x\<in>set (e # es). now_tp - enqueue_tp x \<le> lifespan cfg"
      using young by auto
    then show ?thesis using False by simp
  qed
qed

lemma purge_count_only:
  assumes "lifespan cfg \<le> 0"
  shows "purgeExpiredTransientLocalBuffers cfg bufs now_tp =
           drop (length bufs - unat (buffer_max_count cfg)) bufs"
  using assms by (induction bufs) (auto simp: Suc_diff_le)

lemma enqueue_sorted_snoc:
  assumes "enqueue_sorted bufs" "\<forall>e\<in>set bufs. enqueue_tp e \<le> now_tp"
  shows "enqueue_sorted (bufs @ [\<lparr>buffer = b, enqueue_tp = now_tp\<rparr>])"
  using assms by (simp add: enqueue_sorted_def sorted_append)

lemma retained_inv_same:
  assumes "retained_inv t st" "t \<le> t'"
    and "transient_local_buffers st' = transient_local_buffers st"
    and "transient_local_setting st' = transient_local_setting st"
  shows "retained_inv t' st'"
  using assms by (auto simp: retained_inv_def)

lemma retained_inv_kept:
  assumes "transient_local_buffers st' =
             purgeExpiredTransientLocalBuffers (transient_local_setting st) before now_tp"
    and "transient_local_setting st' = transient_local_setting st"
    and "enqueue_sorted before" "\<forall>e\<in>set before. enqueue_tp e \<le> now_tp"
  shows "retained_inv now_tp st'"
proof -
  let ?kept = "purgeExpiredTransientLocalBuffers (transient_local_setting st) before now_tp"
  have "enqueue_sorted ?kept"
    using assms(3) by (rule purge_sorted)
  moreover have "\<forall>e\<in>set ?kept. enqueue_tp e \<le> now_tp"
    using assms(4) purge_subset [of "transient_local_setting st" before now_tp] by blast
  moreover have "length ?kept \<le> unat (buffer_max_count (transient_local_setting st))"
    by (rule purge_length)
  ultimately show ?thesis
    unfolding retained_inv_def assms(1) assms(2) by blast
qed

lemma retained_inv_purge:
  assumes "retained_inv t st" "t \<le> now_tp"
    and "transient_local_buffers st' =
           purgeExpiredTransientLocalBuffers (transient_local_setting st)
             (transient_local_buffers st) now_tp"
    and "transient_local_setting st' = transient_local_setting st"
  shows "retained_inv now_tp st'"
proof (rule retained_inv_kept [OF assms(3) assms(4)])
  show "enqueue_sorted (transient_local_buffers st)"
    using assms(1) by (simp add: retained_inv_def)
  show "\<forall>e\<in>set (transient_local_buffers st). enqueue_tp e \<le> now_tp"
    using assms(1,2) by (auto simp: retained_inv_def)
qed

lemma retained_inv_enqueue:
  assumes "retained_inv t st" "t \<le> now_tp"
    and "transient_local_buffers st' =
           purgeExpiredTransientLocalBuffers (transient_local_setting st)
             (transient_local_buffers st @ [\<lparr>buffer = b, enqueue_tp = now_tp\<rparr>]) now_tp"
    and "transient_local_setting st' = transient_local_setting st"
  shows "retained_inv now_tp st'"
proof (rule retained_inv_kept [OF assms(3) assms(4)])
  have le: "\<forall>e\<in>set (transient_local_buffers st). enqueue_tp e \<le> now_tp"
    using assms(1,2) by (auto simp: retained_inv_def)
  show "enqueue_sorted (transient_local_buffers st @ [\<lparr>buffer = b, enqueue_tp = now_tp\<rparr>])"
    using assms(1) le by (intro enqueue_sorted_snoc) (simp_all add: retained_inv_def)
  show "\<forall>e\<in>set (transient_local_buffers st @ [\<lparr>buffer = b, enqueue_tp = now_tp\<rparr>]).
          enqueue_tp e \<le> now_tp"
    using le by simp
qed

text \<open>Which operations touch the transient-local buffer and its setting.\<close>

lemma session_closed_retained:
  "transient_local_buffers (session_closed s st) = transient_local_buffers st"
  "transient_local_setting (session_closed s st) = transient_local_setting st"
  by (simp_all add: session_closed_def publisher_session_closed_handler_def update_session_def
      log_call_def)

lemma foldl_session_cancel_retained:
  "transient_local_buffers (foldl (\<lambda>x s. session_cancel s x) st ss) = transient_local_buffers st"
  "transient_local_setting (foldl (\<lambda>x s. session_cancel s x) st ss) = transient_local_setting st"
  by (induction ss arbitrary: st) (simp_all add: session_cancel_def session_closed_retained)

lemma cancel_retained:
  "transient_local_buffers (cancel st) = transient_local_buffers st"
  "transient_local_setting (cancel st) = transient_local_setting st"
  by (simp_all add: cancel_def Let_def foldl_session_cancel_retained update_acceptor_def)

lemma start_retained:
  "transient_local_buffers (snd (start ec st)) = transient_local_buffers st"
  "transient_local_setting (snd (start ec st)) = transient_local_setting st"
  by (simp_all add: start_def Let_def update_acceptor_def log_call_def acceptClient_def)

lemma accept_handler_retained:
  "transient_local_buffers (accept_handler ec st) = transient_local_buffers st"
  "transient_local_setting (accept_handler ec st) = transient_local_setting st"
  by (simp_all add: accept_handler_def Let_def update_acceptor_def log_call_def acceptClient_def
      session_start_def update_session_def split: option.splits accept_ec.splits)

lemma session_error_retained:
  "transient_local_buffers (session_error s st) = transient_local_buffers st"
  "transient_local_setting (session_error s st) = transient_local_setting st"
  by (simp_all add: session_error_def session_closed_retained)

lemma push_handler_retained:
  "transient_local_setting (transient_local_push_handler s now_tp st) = transient_local_setting st"
  "transient_local_buffers (transient_local_push_handler s now_tp st) =
     (if buffer_max_count (transient_local_setting st) = 0 then transient_local_buffers st
      else purgeExpiredTransientLocalBuffers (transient_local_setting st)
             (transient_local_buffers st) now_tp)"
  by (simp_all add: transient_local_push_handler_def Let_def pushTransientBuffer_def
      update_session_def)

lemma handshake_received_retained:
  "transient_local_setting (session_handshake_received s now_tp st) = transient_local_setting st"
  "transient_local_buffers (session_handshake_received s now_tp st) =
     (if socket_open (sessions st s) \<and> handshake (sessions st s) = AwaitRemoteRecv \<and>
         buffer_max_count (transient_local_setting st) \<noteq> 0
      then purgeExpiredTransientLocalBuffers (transient_local_setting st)
             (transient_local_buffers st) now_tp
      else transient_local_buffers st)"
  by (simp_all add: session_handshake_received_def push_handler_retained update_session_def)

lemma send_retained:
  assumes "send payloads pooled now_tp st = Inr (r, st')"
  shows "transient_local_setting st' = transient_local_setting st \<and>
         (transient_local_buffers st' = transient_local_buffers st \<or>
          (\<exists>b. transient_local_buffers st' =
                 purgeExpiredTransientLocalBuffers (transient_local_setting st)
                   (transient_local_buffers st @ [\<lparr>buffer = b, enqueue_tp = now_tp\<rparr>]) now_tp))"
proof (cases "is_running st \<and>
    (buffer_max_count (transient_local_setting st) \<noteq> 0 \<or> publisher_sessions st \<noteq> [])")
  case True
  with assms obtain buf where fb: "fill_buffer pooled payloads = Inr buf"
    by (auto simp: send_def Let_def split: sum.splits)
  from True have "is_running st"
    and "buffer_max_count (transient_local_setting st) \<noteq> 0 \<or> publisher_sessions st \<noteq> []"
    by simp_all
  from send_dispatch [OF this fb, of now_tp] assms show ?thesis by auto
next
  case False
  with assms show ?thesis
    by (auto simp: send_def log_call_def split: if_splits)
qed

lemma step_retained:
  assumes "step ev st = Inr st'" "retained_inv t st" "sorted (t # clock_reading ev)"
  shows "retained_inv (last (t # clock_reading ev)) st' \<and>
         transient_local_setting st' = transient_local_setting st"
proof (cases ev)
  case (Start ec)
  then have st': "st' = snd (start ec st)" using assms(1) by simp
  have "retained_inv t st'"
    using assms(2) order_refl unfolding st' by (rule retained_inv_same) (rule start_retained)+
  then show ?thesis using Start by (simp add: st' start_retained)
next
  case Cancel
  then have st': "st' = cancel st" using assms(1) by simp
  have "retained_inv t st'"
    using assms(2) order_refl unfolding st' by (rule retained_inv_same) (rule cancel_retained)+
  then show ?thesis using Cancel by (simp add: st' cancel_retained)
next
  case (Accept_completed ec)
  then have st': "st' = accept_handler ec st" using assms(1) by simp
  have "retained_inv t st'"
    using assms(2) order_refl unfolding st'
    by (rule retained_inv_same) (rule accept_handler_retained)+
  then show ?thesis using Accept_completed by (simp add: st' accept_handler_retained)
next
  case (Session_error s)
  then have st': "st' = session_error s st" using assms(1) by simp
  have "retained_inv t st'"
    using assms(2) order_refl unfolding st'
    by (rule retained_inv_same) (rule session_error_retained)+
  then show ?thesis using Session_error by (simp add: st' session_error_retained)
next
  case (Handshake_received s now_tp)
  then have st': "st' = session_handshake_received s now_tp st" using assms(1) by simp
  have le: "t \<le> now_tp" using assms(3) Handshake_received by simp
  have cfg: "transient_local_setting st' = transient_local_setting st"
    unfolding st' by (rule handshake_received_retained)
  have "retained_inv now_tp st'"
  proof (cases "socket_open (sessions st s) \<and> handshake (sessions st s) = AwaitRemoteRecv \<and>
         buffer_max_count (transient_local_setting st) \<noteq> 0")
    case True
    then have "transient_local_buffers st' =
           purgeExpiredTransientLocalBuffers (transient_local_setting st)
             (transient_local_buffers st) now_tp"
      unfolding st' handshake_received_retained by simp
    with assms(2) le show ?thesis using cfg by (rule retained_inv_purge)
  next
    case False
    then have "transient_local_buffers st' = transient_local_buffers st"
      unfolding st' handshake_received_retained by auto
    with assms(2) le show ?thesis using cfg by (rule retained_inv_same)
  qed
  then show ?thesis using Handshake_received cfg by simp
next
  case (Send payloads pooled now_tp)
  have le: "t \<le> now_tp" using assms(3) Send by simp
  obtain r where s: "send payloads pooled now_tp st = Inr (r, st')"
  proof (cases "send payloads pooled now_tp st")
    case (Inl e)
    then show ?thesis using assms(1) Send by simp
  next
    case (Inr p)
    then have "send payloads pooled now_tp st = Inr (fst p, st')"
      using assms(1) Send by (cases p) simp
    then show ?thesis by (rule that)
  qed
  note sr = send_retained [OF s]
  from sr have cfg: "transient_local_setting st' = transient_local_setting st" by blast
  have "retained_inv now_tp st'"
  proof (cases "transient_local_buffers st' = transient_local_buffers st")
    case True
    with assms(2) le show ?thesis using cfg by (rule retained_inv_same)
  next
    case False
    with sr obtain b where "transient_local_buffers st' =
                 purgeExpiredTransientLocalBuffers (transient_local_setting st)
                   (transient_local_buffers st @ [\<lparr>buffer = b, enqueue_tp = now_tp\<rparr>]) now_tp"
      by blast
    with assms(2) le show ?thesis using cfg by (rule retained_inv_enqueue)
  qed
  then show ?thesis using Send cfg by simp
qed

lemma exec_retained:
  assumes "exec evs st = Inr st'" "retained_inv t st" "sorted (t # clock_readings evs)"
  shows "retained_inv (last (t # clock_readings evs)) st' \<and>
         transient_local_setting st' = transient_local_setting st"
  using assms
proof (induction evs arbitrary: st t)
  case Nil
  then show ?case by (simp add: clock_readings_def)
next
  case (Cons ev evs)
  from Cons.prems(1) obtain st1 where s1: "step ev st = Inr st1" and e1: "exec evs st1 = Inr st'"
    by (auto split: sum.splits)
  let ?t1 = "last (t # clock_reading ev)"
  have srt: "sorted (t # clock_reading ev @ clock_readings evs)"
    using Cons.prems(3) by (simp add: clock_readings_def)
  then have "sorted (t # clock_reading ev)"
    by (simp add: sorted_append)
  from step_retained [OF s1 Cons.prems(2) this]
  have r1: "retained_inv ?t1 st1" and c1: "transient_local_setting st1 = transient_local_setting st"
    by simp_all
  have srt1: "sorted (?t1 # clock_readings evs)"
    using srt by (cases ev) (auto simp: sorted_append)
  from Cons.IH [OF e1 r1 srt1]
  have "retained_inv (last (?t1 # clock_readings evs)) st'"
    and "transient_local_setting st' = transient_local_setting st1"
    by simp_all
  moreover have "last (?t1 # clock_readings evs) = last (t # clock_readings (ev # evs))"
    by (cases ev) (simp_all add: clock_readings_def)
  ultimately show ?case using c1 by simp
qed

lemma retained_inv_new: "retained_inv t (Publisher_Impl_new cfg)"
  by (simp add: retained_inv_def Publisher_Impl_new_def enqueue_sorted_def)

lemma exec_new_retained:
  assumes "exec evs (Publisher_Impl_new cfg) = Inr st"
    and "sorted (clock_readings evs @ [now_tp])"
  shows "\<exists>t\<le>now_tp. retained_inv t st" and "transient_local_setting st = cfg"
proof -
  define t0 where "t0 = hd (clock_readings evs @ [now_tp])"
  have s0: "sorted (t0 # clock_readings evs)"
    using assms(2) unfolding t0_def by (cases "clock_readings evs") (auto simp: sorted_append)
  have le: "last (t0 # clock_readings evs) \<le> now_tp"
    using assms(2) unfolding t0_def by (cases "clock_readings evs") (auto simp: sorted_append)
  from exec_retained [OF assms(1) retained_inv_new s0]
  have "retained_inv (last (t0 # clock_readings evs)) st"
    and c: "transient_local_setting st = transient_local_setting (Publisher_Impl_new cfg)"
    by simp_all
  with le show "\<exists>t\<le>now_tp. retained_inv t st" by blast
  from c show "transient_local_setting st = cfg" by (simp add: Publisher_Impl_new_def)
qed

text \<open>
  C3. Take any run of a new publisher under a monotonic clock and an eviction pass at the
  time \<open>now_tp\<close> after it, on the buffer as it is (the replay handler) or with the new
  frame appended (\<open>send\<close>). What the pass keeps has at most \<open>buffer_max_count\<close>
  entries; with a positive lifespan no kept entry is older than the lifespan at
  \<open>now_tp\<close>, and with lifespan 0 the pass only cuts to the count; and the kept entries
  are in the order of their time stamps. The buffer of every reached state is within the
  count and in that order too.
\<close>

theorem eviction_pass_invariants:
  assumes "exec evs (Publisher_Impl_new cfg) = Inr st"
    and "sorted (clock_readings evs @ [now_tp])"
    and "before = transient_local_buffers st \<or>
         before = transient_local_buffers st @ [\<lparr>buffer = b, enqueue_tp = now_tp\<rparr>]"
    and "kept = purgeExpiredTransientLocalBuffers (transient_local_setting st) before now_tp"
  shows "transient_local_setting st = cfg \<and>
         length kept \<le> unat (buffer_max_count cfg) \<and>
         (0 < lifespan cfg \<longrightarrow> (\<forall>e\<in>set kept. now_tp - enqueue_tp e \<le> lifespan cfg)) \<and>
         (lifespan cfg \<le> 0 \<longrightarrow>
            kept = drop (length before - unat (buffer_max_count cfg)) before) \<and>
         (\<forall>i j. i < j \<and> j < length kept \<longrightarrow> enqueue_tp (kept ! i) \<le> enqueue_tp (kept ! j)) \<and>
         length (transient_local_buffers st) \<le> unat (buffer_max_count cfg) \<and>
         enqueue_sorted (transient_local_buffers st)"
proof -
  from exec_new_retained [OF assms(1,2)]
  obtain t where le: "t \<le> now_tp" and inv: "retained_inv t st"
    and cfg: "transient_local_setting st = cfg"
    by blast
  have old: "\<forall>e\<in>set (transient_local_buffers st). enqueue_tp e \<le> now_tp"
    using inv le by (auto simp: retained_inv_def)
  have srt: "enqueue_sorted before"
  proof (cases "before = transient_local_buffers st")
    case True
    then show ?thesis using inv by (simp add: retained_inv_def)
  next
    case False
    then have "before = transient_local_buffers st @ [\<lparr>buffer = b, enqueue_tp = now_tp\<rparr>]"
      using assms(3) by blast
    moreover have "enqueue_sorted (transient_local_buffers st)"
      using inv by (simp add: retained_inv_def)
    ultimately show ?thesis using old by (simp add: enqueue_sorted_snoc)
  qed
  have k: "kept = purgeExpiredTransientLocalBuffers cfg before now_tp"
    using assms(4) cfg by simp
  have c2: "length kept \<le> unat (buffer_max_count cfg)"
    unfolding k by (rule purge_length)
  have c3: "0 < lifespan cfg \<longrightarrow> (\<forall>e\<in>set kept. now_tp - enqueue_tp e \<le> lifespan cfg)"
    unfolding k using srt by (blast intro: purge_age [rule_format])
  have c4: "lifespan cfg \<le> 0 \<longrightarrow>
            kept = drop (length before - unat (buffer_max_count cfg)) before"
    unfolding k by (blast intro: purge_count_only)
  have "enqueue_sorted kept"
    unfolding k using srt by (rule purge_sorted)
  then have c5: "\<forall>i j. i < j \<and> j < length kept \<longrightarrow> enqueue_tp (kept ! i) \<le> enqueue_tp (kept ! j)"
    by (auto simp: enqueue_sorted_def sorted_iff_nth_mono)
  have c6: "length (transient_local_buffers st) \<le> unat (buffer_max_count cfg)"
    and c7: "enqueue_sorted (transient_local_buffers st)"
    using inv cfg by (auto simp: retained_inv_def)
  show ?thesis
    using cfg c2 c3 c4 c5 c6 c7 by blast
qed

lemma send_enqueue_example:
  assumes "is_running st" "transient_local_setting st = example_setting"
  shows "\<exists>buf st'. send [] [] now_tp st = Inr (True, st') \<and> is_running st' \<and>
           transient_local_setting st' = example_setting \<and>
           transient_local_buffers st' =
             purgeExpiredTransientLocalBuffers example_setting
               (transient_local_buffers st @ [\<lparr>buffer = buf, enqueue_tp = now_tp\<rparr>]) now_tp"
proof -
  have "\<forall>p\<in>set ([] :: payload list). readable p" by simp
  moreover have "16 + payload_lengths [] < 2 ^ 64" by (simp add: payload_lengths_def)
  ultimately obtain buf where fb: "fill_buffer [] [] = Inr buf"
    using fill_buffer_returns by blast
  have en: "buffer_max_count (transient_local_setting st) \<noteq> 0 \<or> publisher_sessions st \<noteq> []"
    using assms(2) by (simp add: example_setting_def)
  show ?thesis
    unfolding send_dispatch [OF assms(1) en fb, of now_tp]
    using assms by (auto simp add: example_setting_def)
qed

lemma example_run_state:
  "\<exists>st b1 b2. exec example_run (Publisher_Impl_new example_setting) = Inr st \<and>
     transient_local_setting st = example_setting \<and>
     transient_local_buffers st =
       [\<lparr>buffer = b1, enqueue_tp = 10\<rparr>, \<lparr>buffer = b2, enqueue_tp = 20\<rparr>]"
proof -
  from send_enqueue_example [OF example_publisher0_simps(1) example_publisher0_simps(3), of 10]
  obtain b1 st1 where s1: "send [] [] 10 example_publisher0 = Inr (True, st1)"
    and r1: "is_running st1" and c1: "transient_local_setting st1 = example_setting"
    and t1: "transient_local_buffers st1 = [\<lparr>buffer = b1, enqueue_tp = 10\<rparr>]"
    by (auto simp: example_publisher0_simps example_setting_def)
  from send_enqueue_example [OF r1 c1, of 20]
  obtain b2 st2 where s2: "send [] [] 20 st1 = Inr (True, st2)"
    and c2: "transient_local_setting st2 = example_setting"
    and t2: "transient_local_buffers st2 =
       [\<lparr>buffer = b1, enqueue_tp = 10\<rparr>, \<lparr>buffer = b2, enqueue_tp = 20\<rparr>]"
    by (auto simp: t1 example_setting_def)
  have "exec example_run (Publisher_Impl_new example_setting) = Inr st2"
    using s1 s2 by (simp add: example_run_def example_publisher0_def [symmetric])
  with c2 t2 show ?thesis by blast
qed

theorem eviction_pass_invariants_witness:
  "sorted (clock_readings example_run @ [71]) \<and>
   (\<exists>st kept. exec example_run (Publisher_Impl_new example_setting) = Inr st \<and>
      map enqueue_tp (transient_local_buffers st) = [10, 20] \<and>
      kept = purgeExpiredTransientLocalBuffers (transient_local_setting st)
               (transient_local_buffers st @ [\<lparr>buffer = [], enqueue_tp = 71\<rparr>]) 71 \<and>
      map enqueue_tp kept = [71] \<and>
      length kept \<le> unat (buffer_max_count example_setting) \<and>
      (\<forall>e\<in>set kept. 71 - enqueue_tp e \<le> lifespan example_setting))"
proof -
  have srt: "sorted (clock_readings example_run @ [71])"
    by (simp add: clock_readings_def example_run_def)
  from example_run_state obtain st b1 b2
    where e: "exec example_run (Publisher_Impl_new example_setting) = Inr st"
      and c: "transient_local_setting st = example_setting"
      and t: "transient_local_buffers st =
       [\<lparr>buffer = b1, enqueue_tp = 10\<rparr>, \<lparr>buffer = b2, enqueue_tp = 20\<rparr>]"
    by blast
  define kept where "kept = purgeExpiredTransientLocalBuffers (transient_local_setting st)
               (transient_local_buffers st @ [\<lparr>buffer = [], enqueue_tp = 71\<rparr>]) 71"
  have k: "map enqueue_tp kept = [71]"
    by (simp add: kept_def c t example_setting_def)
  have "length kept \<le> unat (buffer_max_count example_setting) \<and>
      (0 < lifespan example_setting \<longrightarrow> (\<forall>e\<in>set kept. 71 - enqueue_tp e \<le> lifespan example_setting))"
    using eviction_pass_invariants [OF e srt _ kept_def, of "[]"] by blast
  moreover have "0 < lifespan example_setting" by (simp add: example_setting_def)
  ultimately show ?thesis
    using srt e t k kept_def by auto
qed

text \<open>
  C2. The replay handler with \<open>buffer_max_count = 0\<close> does nothing. Otherwise it evicts
  first, which keeps a suffix of the buffer in its order, stores what is kept, and hands
  the session one buffer, the concatenation of the kept frames in that order; when that
  concatenation is empty nothing is handed to the session. No other session is touched.
\<close>

theorem transient_local_replay:
  "(buffer_max_count (transient_local_setting st) = 0 \<longrightarrow>
      transient_local_push_handler s now_tp st = st) \<and>
   (buffer_max_count (transient_local_setting st) \<noteq> 0 \<longrightarrow>
      (\<exists>kept k.
         kept = purgeExpiredTransientLocalBuffers (transient_local_setting st)
                  (transient_local_buffers st) now_tp \<and>
         kept = drop k (transient_local_buffers st) \<and>
         transient_local_buffers (transient_local_push_handler s now_tp st) = kept \<and>
         handed (sessions (transient_local_push_handler s now_tp st) s) =
           handed (sessions st s) @
           (if concat (map buffer kept) = [] then []
            else [PushTransientBuffer (concat (map buffer kept))]) \<and>
         (\<forall>s'. s' \<noteq> s \<longrightarrow>
            sessions (transient_local_push_handler s now_tp st) s' = sessions st s') \<and>
         transient_local_push_handler s now_tp st =
           (if concat (map buffer kept) = [] then st\<lparr>transient_local_buffers := kept\<rparr>
            else pushTransientBuffer s (concat (map buffer kept))
                   (st\<lparr>transient_local_buffers := kept\<rparr>))))"
proof (intro conjI impI)
  assume "buffer_max_count (transient_local_setting st) = 0"
  then show "transient_local_push_handler s now_tp st = st"
    by (simp add: transient_local_push_handler_def)
next
  assume en: "buffer_max_count (transient_local_setting st) \<noteq> 0"
  define kept where "kept = purgeExpiredTransientLocalBuffers (transient_local_setting st)
                  (transient_local_buffers st) now_tp"
  obtain k where k: "kept = drop k (transient_local_buffers st)"
    unfolding kept_def using purge_suffix by blast
  have h: "transient_local_push_handler s now_tp st =
           (if concat (map buffer kept) = [] then st\<lparr>transient_local_buffers := kept\<rparr>
            else pushTransientBuffer s (concat (map buffer kept))
                   (st\<lparr>transient_local_buffers := kept\<rparr>))"
    using en by (auto simp: transient_local_push_handler_def Let_def kept_def)
  have "transient_local_buffers (transient_local_push_handler s now_tp st) = kept"
    unfolding h by (simp add: pushTransientBuffer_def update_session_def)
  moreover have "handed (sessions (transient_local_push_handler s now_tp st) s) =
           handed (sessions st s) @
           (if concat (map buffer kept) = [] then []
            else [PushTransientBuffer (concat (map buffer kept))])"
    unfolding h by (simp add: pushTransientBuffer_def update_session_def)
  moreover have "\<forall>s'. s' \<noteq> s \<longrightarrow>
            sessions (transient_local_push_handler s now_tp st) s' = sessions st s'"
    unfolding h by (simp add: pushTransientBuffer_def update_session_def)
  ultimately show "\<exists>kept k.
         kept = purgeExpiredTransientLocalBuffers (transient_local_setting st)
                  (transient_local_buffers st) now_tp \<and>
         kept = drop k (transient_local_buffers st) \<and>
         transient_local_buffers (transient_local_push_handler s now_tp st) = kept \<and>
         handed (sessions (transient_local_push_handler s now_tp st) s) =
           handed (sessions st s) @
           (if concat (map buffer kept) = [] then []
            else [PushTransientBuffer (concat (map buffer kept))]) \<and>
         (\<forall>s'. s' \<noteq> s \<longrightarrow>
            sessions (transient_local_push_handler s now_tp st) s' = sessions st s') \<and>
         transient_local_push_handler s now_tp st =
           (if concat (map buffer kept) = [] then st\<lparr>transient_local_buffers := kept\<rparr>
            else pushTransientBuffer s (concat (map buffer kept))
                   (st\<lparr>transient_local_buffers := kept\<rparr>))"
    using kept_def k h by blast
qed

theorem transient_local_replay_witness:
  "buffer_max_count (transient_local_setting example_retaining) = 2 \<and>
   handed (sessions (transient_local_push_handler 0 70 example_retaining) 0) =
     [PushTransientBuffer [1, 2, 3]] \<and>
   handed (sessions (transient_local_push_handler 0 95 example_retaining) 0) =
     [PushTransientBuffer [3]] \<and>
   handed (sessions (transient_local_push_handler 0 200 example_retaining) 0) = [] \<and>
   transient_local_push_handler 0 70 example_publisher_disabled = example_publisher_disabled"
proof -
  have c: "transient_local_setting example_retaining = example_setting"
    and t: "transient_local_buffers example_retaining =
       [\<lparr>buffer = [1, 2], enqueue_tp = 40\<rparr>, \<lparr>buffer = [3], enqueue_tp = 60\<rparr>]"
    and h: "handed (sessions example_retaining 0) = []"
    by (simp_all add: example_retaining_def example_publisher_simps)
  have en: "buffer_max_count (transient_local_setting example_retaining) \<noteq> 0"
    by (simp add: c example_setting_def)
  have "handed (sessions (transient_local_push_handler 0 70 example_retaining) 0) =
     [PushTransientBuffer [1, 2, 3]]"
    using transient_local_replay [of example_retaining 0 70] en
    by (auto simp: c t h example_setting_def)
  moreover have "handed (sessions (transient_local_push_handler 0 95 example_retaining) 0) =
     [PushTransientBuffer [3]]"
    using transient_local_replay [of example_retaining 0 95] en
    by (auto simp: c t h example_setting_def)
  moreover have "handed (sessions (transient_local_push_handler 0 200 example_retaining) 0) = []"
    using transient_local_replay [of example_retaining 0 200] en
    by (auto simp: c t h example_setting_def)
  moreover have "transient_local_push_handler 0 70 example_publisher_disabled =
      example_publisher_disabled"
    using transient_local_replay [of example_publisher_disabled 0 70]
    by (simp add: example_publisher_disabled_simps)
  ultimately show ?thesis
    by (simp add: c example_setting_def)
qed

section \<open>\<open>start\<close>\<close>

text \<open>
  C5, as stated, fails where it says that a failed \<open>start\<close> leaves no partial state: when
  \<open>bind\<close> reports an error on a new publisher, \<open>start\<close> returns false and the acceptor
  stays open with the reuse-address option set.
\<close>

theorem start_partial_state_counterexample:
  "\<not> fst (start bind_fails (Publisher_Impl_new example_setting)) \<and>
   acceptor (snd (start bind_fails (Publisher_Impl_new example_setting))) \<noteq>
     acceptor (Publisher_Impl_new example_setting) \<and>
   is_open (acceptor (snd (start bind_fails (Publisher_Impl_new example_setting)))) \<and>
   reuse_address (acceptor (snd (start bind_fails (Publisher_Impl_new example_setting)))) \<and>
   \<not> is_open (acceptor (Publisher_Impl_new example_setting))"
  by (simp add: start_def bind_fails_def Publisher_Impl_new_def update_acceptor_def log_call_def
      Let_def)

text \<open>
  C5, amended. \<open>start\<close> parses the address and then calls open, set reuse-address, bind
  and listen in that order, each only when all before it reported no error. It returns
  true exactly when all of them succeed; it then logs at Info, sets \<open>is_running\<close> and arms
  the accept on a new session. Otherwise it returns false, logs one entry at Error, leaves
  \<open>is_running\<close> as it was and arms no accept; the acceptor keeps the effect of the calls
  that succeeded, it is not closed. Sessions, session list, transient-local buffer and
  pool are untouched either way.
\<close>

theorem start_steps:
  "fst (start ec st) = listen_done ec \<and>
   (\<exists>entry. log (snd (start ec st)) = log st @ [entry] \<and>
       (fst entry = Error) = (\<not> listen_done ec) \<and> (fst entry = Info) = listen_done ec) \<and>
   is_running (snd (start ec st)) = (is_running st \<or> listen_done ec) \<and>
   acceptor (snd (start ec st)) =
     (acceptor st)\<lparr>is_open := is_open (acceptor st) \<or> opened ec,
                    reuse_address := reuse_address (acceptor st) \<or> option_set ec,
                    bound := bound (acceptor st) \<or> bind_done ec,
                    listening := listening (acceptor st) \<or> listen_done ec,
                    pending_accept := (if listen_done ec then Some (next_session st)
                                       else pending_accept (acceptor st))\<rparr> \<and>
   next_session (snd (start ec st)) = (if listen_done ec then Suc (next_session st) else next_session st) \<and>
   publisher_sessions (snd (start ec st)) = publisher_sessions st \<and>
   sessions (snd (start ec st)) = sessions st \<and>
   transient_local_buffers (snd (start ec st)) = transient_local_buffers st \<and>
   pool_allocations (snd (start ec st)) = pool_allocations st"
proof -
  consider (addr) "make_address_ec ec"
    | (op) "\<not> make_address_ec ec" "open_ec ec"
    | (opt) "\<not> make_address_ec ec" "\<not> open_ec ec" "set_option_ec ec"
    | (bnd) "\<not> make_address_ec ec" "\<not> open_ec ec" "\<not> set_option_ec ec" "bind_ec ec"
    | (lst) "\<not> make_address_ec ec" "\<not> open_ec ec" "\<not> set_option_ec ec" "\<not> bind_ec ec" "listen_ec ec"
    | (ok) "\<not> make_address_ec ec" "\<not> open_ec ec" "\<not> set_option_ec ec" "\<not> bind_ec ec" "\<not> listen_ec ec"
    by blast
  then show ?thesis
  proof cases
    case addr
    then show ?thesis
      by (simp add: start_def listen_done_def bind_done_def option_set_def opened_def
          log_call_def)
  next
    case op
    then show ?thesis
      by (simp add: start_def listen_done_def bind_done_def option_set_def opened_def
          log_call_def)
  next
    case opt
    then show ?thesis
      by (simp add: start_def listen_done_def bind_done_def option_set_def opened_def
          log_call_def update_acceptor_def Let_def)
  next
    case bnd
    then show ?thesis
      by (simp add: start_def listen_done_def bind_done_def option_set_def opened_def
          log_call_def update_acceptor_def Let_def)
  next
    case lst
    then show ?thesis
      by (simp add: start_def listen_done_def bind_done_def option_set_def opened_def
          log_call_def update_acceptor_def Let_def)
  next
    case ok
    then show ?thesis
      by (simp add: start_def listen_done_def bind_done_def option_set_def opened_def
          log_call_def update_acceptor_def Let_def acceptClient_def)
  qed
qed

theorem start_steps_witness:
  "\<not> fst (start bind_fails (Publisher_Impl_new example_setting)) \<and>
   \<not> is_running (snd (start bind_fails (Publisher_Impl_new example_setting))) \<and>
   acceptor (snd (start bind_fails (Publisher_Impl_new example_setting))) =
     \<lparr>is_open = True, reuse_address = True, bound = False, listening = False,
      pending_accept = None\<rparr> \<and>
   fst (start ok_ec (Publisher_Impl_new example_setting)) \<and>
   is_running (snd (start ok_ec (Publisher_Impl_new example_setting))) \<and>
   acceptor (snd (start ok_ec (Publisher_Impl_new example_setting))) =
     \<lparr>is_open = True, reuse_address = True, bound = True, listening = True,
      pending_accept = Some 0\<rparr>"
  using start_steps [of bind_fails "Publisher_Impl_new example_setting"]
    start_steps [of ok_ec "Publisher_Impl_new example_setting"]
  by (simp add: listen_done_def bind_done_def option_set_def opened_def bind_fails_def ok_ec_def
      Publisher_Impl_new_def)

section \<open>\<open>cancel\<close>\<close>

lemma session_closed_sessions:
  "sessions (session_closed a st) =
     (if handshake (sessions st a) = Failed then sessions st
      else (sessions st)(a := (sessions st a)\<lparr>socket_open := False, handshake := Failed,
                  closed_callbacks := Suc (closed_callbacks (sessions st a))\<rparr>))"
  by (simp add: session_closed_def publisher_session_closed_handler_def update_session_def
      log_call_def)

lemma session_closed_publisher_sessions:
  "publisher_sessions (session_closed a st) =
     (if handshake (sessions st a) = Failed then publisher_sessions st
      else remove1 a (publisher_sessions st))"
  by (simp add: session_closed_def publisher_session_closed_handler_def update_session_def
      log_call_def remove1_idem)

lemma session_closed_acceptor:
  "acceptor (session_closed a st) = acceptor st"
  "is_running (session_closed a st) = is_running st"
  by (simp_all add: session_closed_def publisher_session_closed_handler_def update_session_def
      log_call_def)

lemma session_closed_Failed_id:
  "handshake (sessions st a) = Failed \<Longrightarrow> session_closed a st = st"
  by (simp add: session_closed_def)

lemma foldl_session_cancel_acceptor:
  "acceptor (foldl (\<lambda>x s. session_cancel s x) st ss) = acceptor st"
  "is_running (foldl (\<lambda>x s. session_cancel s x) st ss) = is_running st"
  by (induction ss arbitrary: st) (simp_all add: session_cancel_def session_closed_acceptor)

lemma foldl_session_cancel_Failed_stable:
  "handshake (sessions st s) = Failed \<Longrightarrow>
   handshake (sessions (foldl (\<lambda>x a. session_cancel a x) st ss) s) = Failed"
  by (induction ss arbitrary: st) (simp_all add: session_cancel_def session_closed_sessions)

lemma foldl_session_cancel_Failed:
  "s \<in> set ss \<Longrightarrow> handshake (sessions (foldl (\<lambda>x a. session_cancel a x) st ss) s) = Failed"
proof (induction ss arbitrary: st)
  case Nil
  then show ?case by simp
next
  case (Cons a ss)
  show ?case
  proof (cases "s = a")
    case True
    have "handshake (sessions (session_cancel a st) a) = Failed"
      by (simp add: session_cancel_def session_closed_sessions)
    then show ?thesis
      using True by (simp add: foldl_session_cancel_Failed_stable)
  next
    case False
    then show ?thesis using Cons by simp
  qed
qed

lemma foldl_session_cancel_subset:
  "set (publisher_sessions (foldl (\<lambda>x a. session_cancel a x) st ss)) \<subseteq> set (publisher_sessions st)"
proof (induction ss arbitrary: st)
  case Nil
  show ?case by simp
next
  case (Cons a ss)
  have "set (publisher_sessions (session_cancel a st)) \<subseteq> set (publisher_sessions st)"
    using set_remove1_subset [of a "publisher_sessions st"]
    by (auto simp: session_cancel_def session_closed_publisher_sessions)
  with Cons [of "session_cancel a st"] show ?case by auto
qed

lemma foldl_session_cancel_id:
  "\<forall>s\<in>set ss. handshake (sessions st s) = Failed \<Longrightarrow>
   foldl (\<lambda>x a. session_cancel a x) st ss = st"
  by (induction ss) (simp_all add: session_cancel_def session_closed_Failed_id)

lemma foldl_session_cancel_callbacks:
  "closed_callbacks (sessions (foldl (\<lambda>x a. session_cancel a x) st ss) s) =
     closed_callbacks (sessions st s) +
     (if s \<in> set ss \<and> handshake (sessions st s) \<noteq> Failed then 1 else 0)"
proof (induction ss arbitrary: st)
  case Nil
  show ?case by simp
next
  case (Cons a ss)
  show ?case
    unfolding foldl_Cons Cons [of "session_cancel a st"]
    by (auto simp: session_cancel_def session_closed_sessions)
qed

lemma acceptor_close_idem: "acceptor_close (acceptor_close a) = acceptor_close a"
  by (simp add: acceptor_close_def)

lemma cancel_cancel: "cancel (cancel st) = cancel st"
proof -
  define st2 where "st2 = (update_acceptor acceptor_close st)\<lparr>is_running := False\<rparr>"
  define c where "c = foldl (\<lambda>x a. session_cancel a x) st2 (publisher_sessions st2)"
  have c: "cancel st = c"
    by (simp add: cancel_def Let_def c_def st2_def)
  have a: "acceptor c = acceptor_close (acceptor st)" and r: "\<not> is_running c"
    by (simp_all add: c_def foldl_session_cancel_acceptor st2_def update_acceptor_def)
  have c2: "(update_acceptor acceptor_close c)\<lparr>is_running := False\<rparr> = c"
    using a r by (simp add: update_acceptor_def acceptor_close_idem)
  have "\<forall>s\<in>set (publisher_sessions c). handshake (sessions c s) = Failed"
  proof
    fix s assume "s \<in> set (publisher_sessions c)"
    then have "s \<in> set (publisher_sessions st2)"
      using foldl_session_cancel_subset [of st2 "publisher_sessions st2"] by (auto simp: c_def)
    then show "handshake (sessions c s) = Failed"
      unfolding c_def by (rule foldl_session_cancel_Failed)
  qed
  then have "foldl (\<lambda>x a. session_cancel a x) c (publisher_sessions c) = c"
    by (rule foldl_session_cancel_id)
  moreover have "publisher_sessions (update_acceptor acceptor_close c) = publisher_sessions c"
    by (simp add: update_acceptor_def)
  ultimately have "cancel c = c"
    by (simp add: cancel_def Let_def c2)
  then show ?thesis by (simp add: c)
qed

text \<open>
  C8. A second \<open>cancel\<close> right after a first changes nothing: the publisher is the
  same, with the listener closed, \<open>is_running\<close> false and every session of the list
  cancelled. A \<open>cancel\<close> fires the close callback of a session once if it is in the list and
  has not failed before, and not otherwise, so the second \<open>cancel\<close> fires none. The
  destructor of \<open>Publisher\<close> is a call of \<open>cancel\<close>.
\<close>

theorem cancel_idempotent:
  "cancel (cancel st) = cancel st \<and>
   \<not> is_open (acceptor (cancel st)) \<and>
   \<not> is_running (cancel st) \<and>
   (\<forall>s\<in>set (publisher_sessions st). handshake (sessions (cancel st) s) = Failed) \<and>
   (\<forall>s. closed_callbacks (sessions (cancel st) s) =
          closed_callbacks (sessions st s) +
          (if s \<in> set (publisher_sessions st) \<and> handshake (sessions st s) \<noteq> Failed
           then 1 else 0)) \<and>
   (\<forall>s. closed_callbacks (sessions (cancel (cancel st)) s) =
          closed_callbacks (sessions (cancel st) s)) \<and>
   Publisher_destructor st = cancel st"
proof -
  define st2 where "st2 = (update_acceptor acceptor_close st)\<lparr>is_running := False\<rparr>"
  have c: "cancel st = foldl (\<lambda>x a. session_cancel a x) st2 (publisher_sessions st2)"
    by (simp add: cancel_def Let_def st2_def)
  have ps: "publisher_sessions st2 = publisher_sessions st" and ss: "sessions st2 = sessions st"
    by (simp_all add: st2_def update_acceptor_def)
  have "\<not> is_open (acceptor (cancel st))" "\<not> is_running (cancel st)"
    by (simp_all add: c foldl_session_cancel_acceptor st2_def update_acceptor_def
        acceptor_close_def)
  moreover have "\<forall>s\<in>set (publisher_sessions st). handshake (sessions (cancel st) s) = Failed"
    unfolding c using ps by (auto intro: foldl_session_cancel_Failed)
  moreover have "\<forall>s. closed_callbacks (sessions (cancel st) s) =
          closed_callbacks (sessions st s) +
          (if s \<in> set (publisher_sessions st) \<and> handshake (sessions st s) \<noteq> Failed
           then 1 else 0)"
    unfolding c foldl_session_cancel_callbacks ps ss by simp
  moreover have "Publisher_destructor st = cancel st"
    by (simp add: Publisher_destructor_def)
  ultimately show ?thesis
    by (simp add: cancel_cancel)
qed

lemma example_publisher_session0:
  "handshake (sessions example_publisher 0) = AwaitRemoteRecv"
  "socket_open (sessions example_publisher 0)"
  "closed_callbacks (sessions example_publisher 0) = 0"
  by (simp_all add: example_publisher_def accept_handler_def start_def ok_ec_def
      Publisher_Impl_new_def update_acceptor_def acceptClient_def log_call_def Let_def
      session_start_def update_session_def new_session_def)

theorem cancel_idempotent_witness:
  "publisher_sessions example_publisher = [0] \<and>
   cancel (cancel example_publisher) = cancel example_publisher \<and>
   handshake (sessions (cancel example_publisher) 0) = Failed \<and>
   closed_callbacks (sessions (cancel example_publisher) 0) = 1 \<and>
   closed_callbacks (sessions (cancel (cancel example_publisher)) 0) = 1 \<and>
   \<not> is_running (cancel example_publisher) \<and>
   Publisher_destructor example_publisher = cancel example_publisher"
  using cancel_idempotent [of example_publisher]
  by (simp add: example_publisher_simps example_publisher_session0)

section \<open>The session list\<close>






















end
